theory Spec2Isabelle
  imports Main
begin

section \<open>The resume-data scheduler of save\_resume.cpp\<close>

text \<open>
  A shallow embedding of \<^verbatim>\<open>save_resume::handle_alert\<close>, \<^verbatim>\<open>save_resume::save_all\<close> and
  \<^verbatim>\<open>save_resume::load\<close>. The object's members are a record; every call the object makes on
  the session, on a torrent handle or on the file system is appended to a log kept beside
  the members, so that what was requested, and in which order, can be stated.
  The build modelled is the release build: \<^verbatim>\<open>TORRENT_ASSERT\<close> expands to nothing.
\<close>

subsection \<open>Data\<close>

text \<open>A \<^verbatim>\<open>torrent_handle\<close> is used for its identity only.\<close>

type_synonym handle = nat

text \<open>
  An iterator of \<^verbatim>\<open>boost::unordered_set<torrent_handle>\<close> designates a node of the set:
  \<open>Some h\<close> is the node holding \<open>h\<close>, \<open>None\<close> is \<^verbatim>\<open>end()\<close>.
\<close>

type_synonym iter = "handle option"

text \<open>
  What C++ leaves undefined is a value of the model: incrementing or erasing
  \<^verbatim>\<open>end()\<close>, using an iterator whose node is gone, dereferencing \<^verbatim>\<open>end()\<close>, overflow of
  the \<^verbatim>\<open>int\<close> product and division by zero.
\<close>

datatype fault =
  IncrementEnd | EraseEnd | DerefEnd | StaleIterator | SignedOverflow | DivideByZero

text \<open>The calls the object issues, in the order of the source.\<close>

datatype call =
    NeedSaveResumeData handle      \<comment> \<open>\<^verbatim>\<open>h.need_save_resume_data()\<close>\<close>
  | SaveResumeData handle          \<comment> \<open>\<^verbatim>\<open>h.save_resume_data(torrent_handle::save_info_dict)\<close>\<close>
  | RemoveFile string              \<comment> \<open>\<^verbatim>\<open>remove(resume_file, ec)\<close>\<close>
  | CreateDirectory string         \<comment> \<open>\<^verbatim>\<open>create_directory(m_resume_dir, ec)\<close>\<close>
  | SaveFile string string         \<comment> \<open>\<^verbatim>\<open>save_file(path, buf, ec)\<close>\<close>

record save_resume =
  m_torrents :: "handle list"      \<comment> \<open>the set, in its iteration order; no duplicates\<close>
  m_cursor :: iter
  m_last_save :: int               \<comment> \<open>a \<^verbatim>\<open>ptime\<close>, in the seconds \<^verbatim>\<open>total_seconds\<close> counts\<close>
  m_interval :: int                \<comment> \<open>\<^verbatim>\<open>total_seconds(m_interval)\<close>\<close>
  m_num_in_flight :: int
  m_resume_dir :: string
  calls :: "call list"             \<comment> \<open>oldest first\<close>

text \<open>
  The alerts \<^verbatim>\<open>handle_alert\<close> tells apart, each with the fields the handler reads.
  \<open>AddTorrent h md\<close> carries \<^verbatim>\<open>ta->handle\<close> and \<^verbatim>\<open>ta->handle.status().has_metadata\<close>;
  \<open>TorrentRemoved h ih\<close> carries \<^verbatim>\<open>td->handle\<close> and \<^verbatim>\<open>td->info_hash.to_string()\<close>;
  \<open>SaveResumeDataAlert e\<close> carries \<^verbatim>\<open>*sr->resume_data\<close>; \<open>OtherAlert\<close> is any alert none
  of the five casts accepts (the \<^verbatim>\<open>stats_alert\<close> heartbeat).
\<close>

datatype 'e alert =
    AddTorrent handle bool
  | MetadataReceived handle
  | TorrentRemoved handle string
  | SaveResumeDataAlert 'e
  | SaveResumeDataFailed
  | OtherAlert

text \<open>
  Functions of libtorrent that the unit calls and that are declared outside it are
  parameters: \<^verbatim>\<open>to_hex\<close>, \<^verbatim>\<open>combine_path\<close>, \<^verbatim>\<open>extension\<close>, \<^verbatim>\<open>bencode\<close> into a fresh buffer, and
  \<^verbatim>\<open>e["info-hash"].string()\<close> on an \<^verbatim>\<open>entry\<close>.
\<close>

record 'e externals =
  to_hex :: "string \<Rightarrow> string"
  combine_path :: "string \<Rightarrow> string \<Rightarrow> string"
  extension :: "string \<Rightarrow> string"
  bencode :: "'e \<Rightarrow> string"
  info_hash_string :: "'e \<Rightarrow> string"

text \<open>
  What the world answers during one call of the handler: the clock \<^verbatim>\<open>time_now()\<close> (the
  session's cached clock, one reading per call), the answer of
  \<^verbatim>\<open>need_save_resume_data()\<close> for each handle, and the iteration order the hash table
  gives its nodes when one is inserted (\<open>arrange e (h # xs)\<close> for the new node \<open>h\<close> and the
  old order \<open>xs\<close>).
\<close>

record env =
  now :: int
  need_save :: "handle \<Rightarrow> bool"
  arrange :: "handle list \<Rightarrow> handle list"

subsection \<open>Faults\<close>

definition bind_fault :: "fault + 'a \<Rightarrow> ('a \<Rightarrow> fault + 'b) \<Rightarrow> fault + 'b" where
  "bind_fault r f = (case r of Inl e \<Rightarrow> Inl e | Inr x \<Rightarrow> f x)"

subsection \<open>The set and its iterators\<close>

fun begin_it :: "handle list \<Rightarrow> iter" where
  "begin_it [] = None"
| "begin_it (x # xs) = Some x"

text \<open>\<^verbatim>\<open>m_torrents.find(h)\<close>\<close>

definition find_it :: "handle list \<Rightarrow> handle \<Rightarrow> iter" where
  "find_it xs h = (if h \<in> set xs then Some h else None)"

text \<open>The node after the node holding \<open>h\<close>.\<close>

fun succ_it :: "handle list \<Rightarrow> handle \<Rightarrow> fault + iter" where
  "succ_it [] h = Inl StaleIterator"
| "succ_it (x # xs) h = (if x = h then Inr (begin_it xs) else succ_it xs h)"

text \<open>\<^verbatim>\<open>++it\<close>\<close>

definition incr_it :: "handle list \<Rightarrow> iter \<Rightarrow> fault + iter" where
  "incr_it xs it = (case it of None \<Rightarrow> Inl IncrementEnd | Some h \<Rightarrow> succ_it xs h)"

text \<open>\<^verbatim>\<open>m_torrents.erase(it)\<close>\<close>

definition erase_it :: "handle list \<Rightarrow> iter \<Rightarrow> fault + handle list" where
  "erase_it xs it =
     (case it of
        None \<Rightarrow> Inl EraseEnd
      | Some h \<Rightarrow> if h \<in> set xs then Inr (remove1 h xs) else Inl StaleIterator)"

text \<open>
  \<^verbatim>\<open>m_torrents.insert(h)\<close>: nothing happens when \<open>h\<close> is in the set. Otherwise the set
  holds the old nodes and the new one, in an iteration order that is the hash table's
  choice: the new node may be linked anywhere and a rehash may reorder the old ones. The
  order is therefore a parameter \<open>ord\<close>, applied to the new handle in front of the old
  order; an answer that is not an arrangement of these nodes is not one the table can
  give, and the new node is then put first. An iterator keeps designating its node (the
  container is node based), although the container's contract calls iterators invalid
  after a rehash.
\<close>

definition insert_handle ::
  "(handle list \<Rightarrow> handle list) \<Rightarrow> handle \<Rightarrow> handle list \<Rightarrow> handle list" where
  "insert_handle ord h xs =
     (if h \<in> set xs then xs
      else let ys = ord (h # xs)
           in if distinct ys \<and> set ys = set (h # xs) then ys else h # xs)"

subsection \<open>C++ integer arithmetic\<close>

definition int_ok :: "int \<Rightarrow> bool" where
  "int_ok i \<longleftrightarrow> - (2 ^ 31) \<le> i \<and> i < 2 ^ 31"

text \<open>Division of C++ truncates towards zero.\<close>

definition cdiv :: "int \<Rightarrow> int \<Rightarrow> int" where
  "cdiv a b = sgn a * sgn b * (\<bar>a\<bar> div \<bar>b\<bar>)"

subsection \<open>The constructor\<close>

text \<open>\<^verbatim>\<open>m_cursor(m_torrents.begin())\<close> of the empty set, \<^verbatim>\<open>m_interval(minutes(5))\<close>.\<close>

definition init :: "string \<Rightarrow> int \<Rightarrow> save_resume" where
  "init resume_dir t =
     \<lparr>m_torrents = [], m_cursor = begin_it [], m_last_save = t, m_interval = 300,
      m_num_in_flight = 0, m_resume_dir = resume_dir, calls = []\<rparr>"

subsection \<open>handle\_alert\<close>

definition emit :: "call \<Rightarrow> save_resume \<Rightarrow> save_resume" where
  "emit c s = s\<lparr>calls := calls s @ [c]\<rparr>"

text \<open>\<^verbatim>\<open>h.save_resume_data(torrent_handle::save_info_dict); ++m_num_in_flight;\<close>\<close>

definition request_save :: "handle \<Rightarrow> save_resume \<Rightarrow> save_resume" where
  "request_save h s = (emit (SaveResumeData h) s)\<lparr>m_num_in_flight := m_num_in_flight s + 1\<rparr>"

definition resume_file :: "'e externals \<Rightarrow> string \<Rightarrow> string \<Rightarrow> string" where
  "resume_file lib dir ih = combine_path lib dir (to_hex lib ih @ ''.resume'')"

text \<open>The branch \<^verbatim>\<open>if (ta)\<close>, lines 82 to 95.\<close>

definition on_add :: "env \<Rightarrow> handle \<Rightarrow> bool \<Rightarrow> save_resume \<Rightarrow> save_resume" where
  "on_add e h has_metadata s =
     (let s1 = s\<lparr>m_torrents := insert_handle (arrange e) h (m_torrents s)\<rparr>;
          s2 = (if has_metadata then request_save h s1 else s1)
      in if m_cursor s2 = None then s2\<lparr>m_cursor := begin_it (m_torrents s2)\<rparr> else s2)"

text \<open>
  The branch \<^verbatim>\<open>else if (td)\<close>, lines 101 to 121. \<^verbatim>\<open>m_cursor == i\<close> compares iterators, so
  it also holds when both are \<^verbatim>\<open>end()\<close>. The assertion \<^verbatim>\<open>i != m_torrents.end()\<close> is
  compiled out.
\<close>

definition on_removed ::
  "'e externals \<Rightarrow> handle \<Rightarrow> string \<Rightarrow> save_resume \<Rightarrow> fault + save_resume" where
  "on_removed lib h ih s =
     (let i = find_it (m_torrents s) h in
      bind_fault
        (if m_cursor s = i
         then bind_fault (incr_it (m_torrents s) (m_cursor s)) (\<lambda>c. Inr (c, c = None))
         else Inr (m_cursor s, False))
        (\<lambda>(c, wrapped).
           let s1 = emit (RemoveFile (resume_file lib (m_resume_dir s) ih)) (s\<lparr>m_cursor := c\<rparr>)
           in bind_fault (erase_it (m_torrents s1) i)
                (\<lambda>ts. let s2 = s1\<lparr>m_torrents := ts\<rparr>
                      in Inr (if wrapped then s2\<lparr>m_cursor := begin_it (m_torrents s2)\<rparr> else s2))))"

text \<open>
  The branch \<^verbatim>\<open>else if (sr)\<close>, lines 122 to 133. The assertion
  \<^verbatim>\<open>m_num_in_flight > 0\<close> is compiled out.
\<close>

definition on_save_resume_data :: "'e externals \<Rightarrow> 'e \<Rightarrow> save_resume \<Rightarrow> save_resume" where
  "on_save_resume_data lib e s =
     (let s1 = s\<lparr>m_num_in_flight := m_num_in_flight s - 1\<rparr>;
          buf = bencode lib e;
          s2 = emit (CreateDirectory (m_resume_dir s1)) s1
      in emit (SaveFile (resume_file lib (m_resume_dir s2) (info_hash_string lib e)) buf) s2)"

text \<open>The chain of branches, lines 82 to 138.\<close>

fun dispatch :: "'e externals \<Rightarrow> env \<Rightarrow> 'e alert \<Rightarrow> save_resume \<Rightarrow> fault + save_resume" where
  "dispatch lib e (AddTorrent h has_metadata) s = Inr (on_add e h has_metadata s)"
| "dispatch lib e (MetadataReceived h) s = Inr (request_save h s)"
| "dispatch lib e (TorrentRemoved h ih) s = on_removed lib h ih s"
| "dispatch lib e (SaveResumeDataAlert r) s = Inr (on_save_resume_data lib r s)"
| "dispatch lib e SaveResumeDataFailed s = Inr (s\<lparr>m_num_in_flight := m_num_in_flight s - 1\<rparr>)"
| "dispatch lib e OtherAlert s = Inr s"

text \<open>The body of the \<^verbatim>\<open>while\<close> loop, lines 154 to 165: one schedule slot.\<close>

definition save_slot :: "env \<Rightarrow> save_resume \<Rightarrow> fault + save_resume" where
  "save_slot e s =
     (let s1 = (if m_cursor s = None then s\<lparr>m_cursor := begin_it (m_torrents s)\<rparr> else s)
      in case m_cursor s1 of
           None \<Rightarrow> Inl DerefEnd
         | Some h \<Rightarrow>
             let s2 = emit (NeedSaveResumeData h) s1;
                 s3 = (if need_save e h then request_save h s2 else s2);
                 s4 = s3\<lparr>m_last_save := now e\<rparr>
             in bind_fault (incr_it (m_torrents s4) (m_cursor s4))
                  (\<lambda>c. Inr (s4\<lparr>m_cursor := c\<rparr>)))"

text \<open>\<^verbatim>\<open>while (num_to_save > 0) { ...; --num_to_save; ... }\<close>\<close>

fun save_loop :: "env \<Rightarrow> nat \<Rightarrow> save_resume \<Rightarrow> fault + save_resume" where
  "save_loop e 0 s = Inr s"
| "save_loop e (Suc k) s = bind_fault (save_slot e s) (save_loop e k)"

text \<open>\<^verbatim>\<open>num_torrents * total_seconds(time_now() - m_last_save) / total_seconds(m_interval)\<close>,
  then \<^verbatim>\<open>(std::min)(num_to_save, num_torrents)\<close>.\<close>

definition num_to_save :: "env \<Rightarrow> save_resume \<Rightarrow> fault + int" where
  "num_to_save e s =
     (let num_torrents = int (length (m_torrents s));
          elapsed = now e - m_last_save s
      in if \<not> int_ok (num_torrents * elapsed) then Inl SignedOverflow
         else if m_interval s = 0 then Inl DivideByZero
         else Inr (min (cdiv (num_torrents * elapsed) (m_interval s)) num_torrents))"

text \<open>The throttled pass, lines 140 to 166.\<close>

definition throttle :: "env \<Rightarrow> save_resume \<Rightarrow> fault + save_resume" where
  "throttle e s =
     (if m_torrents s = [] then Inr s
      else bind_fault (num_to_save e s) (\<lambda>n. save_loop e (nat n) s))"

definition handle_alert ::
  "'e externals \<Rightarrow> env \<Rightarrow> 'e alert \<Rightarrow> save_resume \<Rightarrow> fault + save_resume" where
  "handle_alert lib e a s = bind_fault (dispatch lib e a s) (throttle e)"

text \<open>A sequence of alerts, each delivered with the answers of the world at that time.\<close>

fun run_alerts ::
  "'e externals \<Rightarrow> (env \<times> 'e alert) list \<Rightarrow> save_resume \<Rightarrow> fault + save_resume" where
  "run_alerts lib [] s = Inr s"
| "run_alerts lib ((e, a) # es) s = bind_fault (handle_alert lib e a s) (run_alerts lib es)"

subsection \<open>save\_all\<close>

fun save_all_from :: "env \<Rightarrow> handle list \<Rightarrow> save_resume \<Rightarrow> save_resume" where
  "save_all_from e [] s = s"
| "save_all_from e (h # hs) s =
     (let s1 = emit (NeedSaveResumeData h) s
      in save_all_from e hs (if \<not> need_save e h then s1 else request_save h s1))"

definition save_all :: "env \<Rightarrow> save_resume \<Rightarrow> save_resume" where
  "save_all e s = save_all_from e (m_torrents s) s"

subsection \<open>load\<close>

text \<open>
  The \<^verbatim>\<open>directory\<close> object as the loop sees it: at a file with more to come, done, or
  failed (\<^verbatim>\<open>ec\<close> set by the constructor or by \<^verbatim>\<open>next\<close>).
\<close>

datatype directory = File string directory | Done | Failed nat

text \<open>\<^verbatim>\<open>add_torrent_params\<close>: the field the unit writes; the others are the record's extension.\<close>

record add_torrent_params =
  resume_data :: "string option"

text \<open>
  \<^verbatim>\<open>load_file(file_path, resume, tec) < 0 || tec\<close> is \<open>read path = None\<close>; otherwise
  \<open>read path\<close> is the content read. The result is the final \<^verbatim>\<open>ec\<close> (\<open>None\<close> when clear)
  and the arguments of the \<^verbatim>\<open>async_add_torrent\<close> calls, in order.
\<close>

fun load_dir ::
  "'e externals \<Rightarrow> (string \<Rightarrow> string option) \<Rightarrow> string \<Rightarrow> 'a add_torrent_params_scheme \<Rightarrow>
   directory \<Rightarrow> nat option \<times> 'a add_torrent_params_scheme list" where
  "load_dir lib read dir model Done = (None, [])"
| "load_dir lib read dir model (Failed ec) = (Some ec, [])"
| "load_dir lib read dir model (File f rest) =
     (if extension lib f \<noteq> ''.resume'' then load_dir lib read dir model rest
      else case read (combine_path lib dir f) of
             None \<Rightarrow> load_dir lib read dir model rest
           | Some resume \<Rightarrow>
               (let p = model\<lparr>resume_data := Some resume\<rparr>;
                    (ec, ps) = load_dir lib read dir model rest
                in (ec, p # ps)))"

definition load ::
  "'e externals \<Rightarrow> (string \<Rightarrow> string option) \<Rightarrow> directory \<Rightarrow> 'a add_torrent_params_scheme \<Rightarrow>
   save_resume \<Rightarrow> nat option \<times> 'a add_torrent_params_scheme list" where
  "load lib read d model s = load_dir lib read (m_resume_dir s) model d"

subsection \<open>Observations on a run\<close>

text \<open>The handles of the save requests issued, and of the schedule slots consumed, oldest first.\<close>

definition requests :: "call list \<Rightarrow> handle list" where
  "requests cs = concat (map (\<lambda>c. case c of SaveResumeData h \<Rightarrow> [h] | _ \<Rightarrow> []) cs)"

definition slots :: "call list \<Rightarrow> handle list" where
  "slots cs = concat (map (\<lambda>c. case c of NeedSaveResumeData h \<Rightarrow> [h] | _ \<Rightarrow> []) cs)"

text \<open>The cursor is \<^verbatim>\<open>end()\<close> or designates a node of the set.\<close>

definition cursor_ok :: "save_resume \<Rightarrow> bool" where
  "cursor_ok s = (case m_cursor s of None \<Rightarrow> True | Some h \<Rightarrow> h \<in> set (m_torrents s))"

fun is_answer :: "'e alert \<Rightarrow> bool" where
  "is_answer (SaveResumeDataAlert r) = True"
| "is_answer SaveResumeDataFailed = True"
| "is_answer _ = False"

definition completed :: "(env \<times> 'e alert) list \<Rightarrow> nat" where
  "completed es =
     length (filter (\<lambda>(e, a). case a of SaveResumeDataAlert r \<Rightarrow> True | _ \<Rightarrow> False) es)"

definition failed :: "(env \<times> 'e alert) list \<Rightarrow> nat" where
  "failed es = length (filter (\<lambda>(e, a). a = SaveResumeDataFailed) es)"

text \<open>
  Every save-completed and save-failed alert of the sequence answers a request of its
  own, issued before it: when such an alert is delivered after \<open>j\<close> earlier ones, more
  than \<open>j\<close> requests have been issued.
\<close>

fun matched ::
  "'e externals \<Rightarrow> (env \<times> 'e alert) list \<Rightarrow> save_resume \<Rightarrow> nat \<Rightarrow> bool" where
  "matched lib [] s j = True"
| "matched lib ((e, a) # es) s j =
     ((is_answer a \<longrightarrow> j < length (requests (calls s))) \<and>
      (case handle_alert lib e a s of
         Inl f \<Rightarrow> True
       | Inr s' \<Rightarrow> matched lib es s' (if is_answer a then Suc j else j)))"

text \<open>The iterator at position \<open>i\<close> of the iteration order; \<^verbatim>\<open>end()\<close> from the length on.\<close>

definition it_at :: "handle list \<Rightarrow> nat \<Rightarrow> iter" where
  "it_at xs i = (if i < length xs then Some (xs ! i) else None)"

fun index_of :: "handle list \<Rightarrow> handle \<Rightarrow> nat" where
  "index_of [] h = 0"
| "index_of (x # xs) h = (if x = h then 0 else Suc (index_of xs h))"

text \<open>
  The entity the next schedule slot serves: the one at the cursor, or the first of the
  set when the cursor is at the end.
\<close>

definition under_cursor :: "save_resume \<Rightarrow> handle" where
  "under_cursor s = (case m_cursor s of None \<Rightarrow> hd (m_torrents s) | Some h \<Rightarrow> h)"

definition phase :: "save_resume \<Rightarrow> nat" where
  "phase s = index_of (m_torrents s) (under_cursor s)"

text \<open>The calls of one schedule slot serving \<open>h\<close>.\<close>

definition slot_calls :: "env \<Rightarrow> handle \<Rightarrow> call list" where
  "slot_calls e h = NeedSaveResumeData h # (if need_save e h then [SaveResumeData h] else [])"


text \<open>\<open>k\<close> consecutive entities of the round-robin order, from position \<open>q\<close>.\<close>

definition cyclic :: "handle list \<Rightarrow> nat \<Rightarrow> nat \<Rightarrow> handle list" where
  "cyclic xs q k = map (\<lambda>j. xs ! ((q + j) mod length xs)) [0..<k]"



text \<open>The file names a directory scan yields, and the error it ends with.\<close>

fun listed :: "directory \<Rightarrow> string list" where
  "listed Done = []"
| "listed (Failed ec) = []"
| "listed (File f rest) = f # listed rest"

fun final_ec :: "directory \<Rightarrow> nat option" where
  "final_ec Done = None"
| "final_ec (Failed ec) = Some ec"
| "final_ec (File f rest) = final_ec rest"

text \<open>What holds of the members in every state the object reaches.\<close>

definition members_ok :: "save_resume \<Rightarrow> bool" where
  "members_ok s \<longleftrightarrow> distinct (m_torrents s) \<and> cursor_ok s \<and> m_interval s = 300"

subsection \<open>Concrete parameters\<close>

text \<open>
  Modelled from the spec: \<^verbatim>\<open>to_hex\<close>, \<^verbatim>\<open>combine_path\<close> and \<^verbatim>\<open>extension\<close> are declared in
  libtorrent headers that are not part of the unit. The file of an entity is
  \<^verbatim>\<open>{resumeDir}/{lowercaseHexOfContentHash}.resume\<close>. A resume payload is taken here as
  the pair of its info-hash string and its encoding. These instances are used at concrete
  inputs only; every general statement is over arbitrary parameters.
\<close>

definition hex_digit :: "nat \<Rightarrow> char" where
  "hex_digit n = ''0123456789abcdef'' ! (n mod 16)"

definition to_hex_lower :: "string \<Rightarrow> string" where
  "to_hex_lower s = concat (map (\<lambda>c. [hex_digit (of_char c div 16), hex_digit (of_char c)]) s)"

definition ext_of :: "string \<Rightarrow> string" where
  "ext_of f = (if CHR ''.'' \<in> set f
               then CHR ''.'' # rev (takeWhile (\<lambda>c. c \<noteq> CHR ''.'') (rev f)) else [])"

definition posix_lib :: "(string \<times> string) externals" where
  "posix_lib = \<lparr>to_hex = to_hex_lower, combine_path = (\<lambda>d f. d @ ''/'' @ f),
     extension = ext_of, bencode = snd, info_hash_string = fst\<rparr>"

text \<open>
  A world at time \<open>t\<close> in which no torrent, respectively every torrent, needs saving, and
  in which the hash table links a new node first and leaves the others in place.
\<close>

definition quiet :: "int \<Rightarrow> env" where
  "quiet t = \<lparr>now = t, need_save = (\<lambda>h. False), arrange = (\<lambda>xs. xs)\<rparr>"

definition dirty :: "int \<Rightarrow> env" where
  "dirty t = \<lparr>now = t, need_save = (\<lambda>h. True), arrange = (\<lambda>xs. xs)\<rparr>"

definition demo_alerts :: "(env \<times> (string \<times> string) alert) list" where
  "demo_alerts =
     [(quiet 0, AddTorrent 1 True),
      (quiet 1, SaveResumeDataAlert (''ab'', ''d4:spam4:eggse'')),
      (dirty 400, MetadataReceived 1),
      (quiet 401, SaveResumeDataFailed),
      (quiet 402, SaveResumeDataFailed)]"

text \<open>Ten entities with the cursor on the first, thirty seconds before the tick of the scenario.\<close>

definition ten :: save_resume where
  "ten = \<lparr>m_torrents = [1, 2, 3, 4, 5, 6, 7, 8, 9, 10], m_cursor = Some 1, m_last_save = 0,
           m_interval = 300, m_num_in_flight = 0, m_resume_dir = ''resume'', calls = []\<rparr>"

text \<open>Three entities with the cursor on the second.\<close>

definition three :: save_resume where
  "three = \<lparr>m_torrents = [1, 2, 3], m_cursor = Some 2, m_last_save = 0,
             m_interval = 300, m_num_in_flight = 0, m_resume_dir = ''resume'', calls = []\<rparr>"

text \<open>A directory of three readable resume files, one unreadable one and a stray file.\<close>

definition demo_dir :: directory where
  "demo_dir = File ''aa.resume'' (File ''bb.resume'' (File ''notes.txt''
                (File ''cc.resume'' (File ''dd.resume'' Done))))"

definition demo_read :: "string \<Rightarrow> string option" where
  "demo_read p =
     (if p = ''resume/aa.resume'' then Some ''A''
      else if p = ''resume/cc.resume'' then Some ''C''
      else if p = ''resume/dd.resume'' then Some ''D''
      else None)"

section \<open>Properties\<close>

lemmas model_defs = handle_alert_def throttle_def num_to_save_def save_slot_def on_add_def
  on_removed_def on_save_resume_data_def request_save_def emit_def resume_file_def
  insert_handle_def find_it_def incr_it_def erase_it_def int_ok_def cdiv_def init_def Let_def

lemmas demo_defs = quiet_def dirty_def posix_lib_def to_hex_lower_def hex_digit_def ext_of_def

subsection \<open>Basic facts\<close>

lemma requests_append [simp]: "requests (xs @ ys) = requests xs @ requests ys"
  by (simp add: requests_def)

lemma slots_append [simp]: "slots (xs @ ys) = slots xs @ slots ys"
  by (simp add: slots_def)

lemma requests_simps [simp]:
  "requests [] = []"
  "requests (SaveResumeData h # cs) = h # requests cs"
  "requests (NeedSaveResumeData h # cs) = requests cs"
  "requests (RemoveFile p # cs) = requests cs"
  "requests (CreateDirectory p # cs) = requests cs"
  "requests (SaveFile p b # cs) = requests cs"
  by (simp_all add: requests_def)

lemma slots_simps [simp]:
  "slots [] = []"
  "slots (SaveResumeData h # cs) = slots cs"
  "slots (NeedSaveResumeData h # cs) = h # slots cs"
  "slots (RemoveFile p # cs) = slots cs"
  "slots (CreateDirectory p # cs) = slots cs"
  "slots (SaveFile p b # cs) = slots cs"
  by (simp_all add: slots_def)

lemma bind_fault_Inr_iff:
  "bind_fault r f = Inr y \<longleftrightarrow> (\<exists>x. r = Inr x \<and> f x = Inr y)"
  by (cases r) (simp_all add: bind_fault_def)

lemma bind_fault_simps [simp]:
  "bind_fault (Inl e) f = Inl e"
  "bind_fault (Inr x) f = f x"
  by (simp_all add: bind_fault_def)

lemma succ_it_split:
  "h \<notin> set ys \<Longrightarrow> succ_it (ys @ h # zs) h = Inr (begin_it zs)"
  by (induction ys) auto

lemma begin_it_mem: "begin_it zs = Some x \<Longrightarrow> x \<in> set zs"
  by (cases zs) auto

lemma succ_it_mem:
  assumes "h \<in> set xs"
  shows "\<exists>c. succ_it xs h = Inr c \<and> (case c of None \<Rightarrow> True | Some x \<Rightarrow> x \<in> set xs)"
proof -
  from split_list_first [OF assms] obtain ys zs where xs: "xs = ys @ h # zs" and n: "h \<notin> set ys"
    by blast
  have "succ_it xs h = Inr (begin_it zs)"
    by (simp add: xs succ_it_split [OF n])
  moreover have "case begin_it zs of None \<Rightarrow> True | Some x \<Rightarrow> x \<in> set xs"
    by (auto simp: xs split: option.splits dest: begin_it_mem)
  ultimately show ?thesis by blast
qed

subsection \<open>The in-flight counter\<close>

text \<open>Each part of the handler keeps the counter in step with the requests it logs.\<close>

lemma save_slot_balance:
  assumes "save_slot e s = Inr s'"
  shows "m_num_in_flight s' - int (length (requests (calls s')))
       = m_num_in_flight s - int (length (requests (calls s)))"
  using assms
  by (auto simp: save_slot_def Let_def emit_def request_save_def bind_fault_Inr_iff
      split: option.splits if_splits)

lemma save_loop_balance:
  "save_loop e k s = Inr s' \<Longrightarrow>
   m_num_in_flight s' - int (length (requests (calls s')))
     = m_num_in_flight s - int (length (requests (calls s)))"
proof (induction k arbitrary: s)
  case 0
  then show ?case by simp
next
  case (Suc k)
  then obtain s1 where a: "save_slot e s = Inr s1" and b: "save_loop e k s1 = Inr s'"
    by (auto simp: bind_fault_Inr_iff)
  from Suc.IH [OF b] save_slot_balance [OF a] show ?case by simp
qed

lemma throttle_balance:
  "throttle e s = Inr s' \<Longrightarrow>
   m_num_in_flight s' - int (length (requests (calls s')))
     = m_num_in_flight s - int (length (requests (calls s)))"
  by (auto simp: throttle_def bind_fault_Inr_iff dest: save_loop_balance split: if_splits)

lemma dispatch_balance:
  "dispatch lib e a s = Inr s' \<Longrightarrow>
   m_num_in_flight s' - int (length (requests (calls s')))
     = m_num_in_flight s - int (length (requests (calls s))) - (if is_answer a then 1 else 0)"
  by (cases a)
     (auto simp: on_add_def on_removed_def on_save_resume_data_def Let_def emit_def
        request_save_def bind_fault_Inr_iff split: if_splits prod.splits)

lemma handle_alert_balance:
  "handle_alert lib e a s = Inr s' \<Longrightarrow>
   m_num_in_flight s' - int (length (requests (calls s')))
     = m_num_in_flight s - int (length (requests (calls s))) - (if is_answer a then 1 else 0)"
  by (auto simp: handle_alert_def bind_fault_Inr_iff dest!: dispatch_balance throttle_balance)

text \<open>The log only grows.\<close>

lemma save_slot_calls:
  "save_slot e s = Inr s' \<Longrightarrow> \<exists>cs. calls s' = calls s @ cs"
  by (auto simp: save_slot_def Let_def emit_def request_save_def bind_fault_Inr_iff
      split: option.splits if_splits)

lemma save_loop_calls:
  "save_loop e k s = Inr s' \<Longrightarrow> \<exists>cs. calls s' = calls s @ cs"
proof (induction k arbitrary: s)
  case 0
  then show ?case by simp
next
  case (Suc k)
  then obtain s1 where a: "save_slot e s = Inr s1" and b: "save_loop e k s1 = Inr s'"
    by (auto simp: bind_fault_Inr_iff)
  from save_slot_calls [OF a] Suc.IH [OF b] show ?case by auto
qed

lemma throttle_calls:
  "throttle e s = Inr s' \<Longrightarrow> \<exists>cs. calls s' = calls s @ cs"
  by (auto simp: throttle_def bind_fault_Inr_iff dest: save_loop_calls split: if_splits)

lemma dispatch_calls:
  "dispatch lib e a s = Inr s' \<Longrightarrow> \<exists>cs. calls s' = calls s @ cs"
  by (cases a)
     (auto simp: on_add_def on_removed_def on_save_resume_data_def Let_def emit_def
        request_save_def bind_fault_Inr_iff split: if_splits prod.splits)

lemma handle_alert_calls:
  "handle_alert lib e a s = Inr s' \<Longrightarrow> \<exists>cs. calls s' = calls s @ cs"
  by (auto simp: handle_alert_def bind_fault_Inr_iff dest!: dispatch_calls throttle_calls)

lemma answer_count:
  "completed ((e, a) # es) + failed ((e, a) # es)
     = (if is_answer a then 1 else 0) + (completed es + failed es)"
  by (cases a) (simp_all add: completed_def failed_def)

lemma matched_run:
  assumes "matched lib es s j"
    and "run_alerts lib (take k es) s = Inr s'"
    and "m_num_in_flight s = int (length (requests (calls s))) - int j"
    and "j \<le> length (requests (calls s))"
  shows "0 \<le> m_num_in_flight s' \<and>
         m_num_in_flight s' = int (length (requests (calls s')))
            - int j - int (completed (take k es) + failed (take k es))"
  using assms
proof (induction es arbitrary: s j k)
  case Nil
  then show ?case by (simp add: completed_def failed_def)
next
  case (Cons x es)
  obtain e a where x: "x = (e, a)" by (cases x)
  show ?case
  proof (cases k)
    case 0
    with Cons.prems show ?thesis by (simp add: completed_def failed_def)
  next
    case (Suc k')
    with Cons.prems x obtain s1 where
      h: "handle_alert lib e a s = Inr s1" and r: "run_alerts lib (take k' es) s1 = Inr s'"
      by (auto simp: bind_fault_Inr_iff)
    let ?j = "if is_answer a then Suc j else j"
    from Cons.prems(1) x h have m: "matched lib es s1 ?j"
      and lt: "is_answer a \<longrightarrow> j < length (requests (calls s))" by auto
    from handle_alert_calls [OF h] have mono:
      "length (requests (calls s)) \<le> length (requests (calls s1))" by auto
    from handle_alert_balance [OF h] Cons.prems(3)
    have inv: "m_num_in_flight s1 = int (length (requests (calls s1))) - int ?j" by auto
    from lt mono Cons.prems(4) have le: "?j \<le> length (requests (calls s1))" by auto
    from Cons.IH [OF m r inv le]
    have "0 \<le> m_num_in_flight s'"
      and "m_num_in_flight s' = int (length (requests (calls s')))
            - int ?j - int (completed (take k' es) + failed (take k' es))" by auto
    then show ?thesis
      using answer_count [of e a "take k' es"] by (simp add: Suc x)
  qed
qed

text \<open>
  C1. Start from the constructed object and deliver any sequence of alerts in which every
  save-completed and save-failed alert answers a request of its own issued earlier. At
  every point of the run that is reached (after any number \<open>k\<close> of the alerts) the counter
  \<^verbatim>\<open>m_num_in_flight\<close> is not negative and equals the number of save requests issued so far
  minus the save-completed alerts minus the save-failed alerts delivered so far.
\<close>

theorem in_flight_balance:
  assumes "matched lib es (init dir t0) 0"
    and "run_alerts lib (take k es) (init dir t0) = Inr s"
  shows "0 \<le> m_num_in_flight s \<and>
         m_num_in_flight s = int (length (requests (calls s)))
            - int (completed (take k es)) - int (failed (take k es))"
  using matched_run [OF assms] by (simp add: init_def)

theorem in_flight_balance_witness:
  "matched posix_lib demo_alerts (init ''resume'' 0) 0 \<and>
   (\<exists>s. run_alerts posix_lib (take 5 demo_alerts) (init ''resume'' 0) = Inr s \<and>
        length (requests (calls s)) = 3 \<and>
        completed (take 5 demo_alerts) = 1 \<and> failed (take 5 demo_alerts) = 2 \<and>
        0 \<le> m_num_in_flight s \<and>
        m_num_in_flight s = int (length (requests (calls s)))
            - int (completed (take 5 demo_alerts)) - int (failed (take 5 demo_alerts)))"
proof -
  have m: "matched posix_lib demo_alerts (init ''resume'' 0) 0"
    by (simp add: demo_alerts_def demo_defs model_defs)
  have r: "run_alerts posix_lib (take 5 demo_alerts) (init ''resume'' 0) =
    Inr \<lparr>m_torrents = [1], m_cursor = None, m_last_save = 400, m_interval = 300,
         m_num_in_flight = 0, m_resume_dir = ''resume'',
         calls = [SaveResumeData 1, CreateDirectory ''resume'',
                  SaveFile ''resume/6162.resume'' ''d4:spam4:eggse'',
                  SaveResumeData 1, NeedSaveResumeData 1, SaveResumeData 1]\<rparr>"
    by (simp add: demo_alerts_def demo_defs model_defs)
  have c: "completed (take 5 demo_alerts) = 1 \<and> failed (take 5 demo_alerts) = 2"
    by (simp add: demo_alerts_def completed_def failed_def)
  from in_flight_balance [OF m r] show ?thesis
    using m r c by simp
qed

subsection \<open>Positions in the iteration order\<close>

lemma begin_it_drop: "begin_it (drop k xs) = it_at xs k"
proof (cases "k < length xs")
  case True
  then show ?thesis by (simp add: it_at_def Cons_nth_drop_Suc [symmetric])
next
  case False
  then show ?thesis by (simp add: it_at_def)
qed


lemma nth_index_of: "h \<in> set xs \<Longrightarrow> xs ! index_of xs h = h"
  by (induction xs) auto


lemma succ_it_index:
  "h \<in> set xs \<Longrightarrow> succ_it xs h = Inr (it_at xs (Suc (index_of xs h)))"
proof (induction xs)
  case Nil
  then show ?case by simp
next
  case (Cons x xs)
  show ?case
  proof (cases "x = h")
    case True
    then show ?thesis using begin_it_drop [of 0 xs] by (simp add: it_at_def)
  next
    case False
    with Cons show ?thesis by (simp add: it_at_def)
  qed
qed

lemma it_at_Suc_ne:
  assumes "distinct xs" "h \<in> set xs" "it_at xs (Suc (index_of xs h)) = Some x"
  shows "x \<noteq> h \<and> x \<in> set xs"
proof -
  from assms(3) have l: "Suc (index_of xs h) < length xs" and x: "x = xs ! Suc (index_of xs h)"
    by (auto simp: it_at_def split: if_splits)
  from assms(1) l have "xs ! Suc (index_of xs h) \<noteq> xs ! index_of xs h"
    by (simp add: nth_eq_iff_index_eq)
  with x nth_index_of [OF assms(2)] l show ?thesis by auto
qed




subsection \<open>One schedule slot\<close>

lemma slots_slot_calls [simp]: "slots (slot_calls e h) = [h]"
  by (simp add: slot_calls_def)

lemma requests_slot_calls: "requests (slot_calls e h) = (if need_save e h then [h] else [])"
  by (simp add: slot_calls_def)

lemma save_slot_eq:
  assumes ne: "m_torrents s \<noteq> []" and ok: "cursor_ok s"
  shows "save_slot e s =
     Inr (s\<lparr>m_cursor := it_at (m_torrents s) (Suc (phase s)),
           m_last_save := now e,
           m_num_in_flight := m_num_in_flight s + (if need_save e (under_cursor s) then 1 else 0),
           calls := calls s @ slot_calls e (under_cursor s)\<rparr>)"
proof (cases "m_cursor s")
  case None
  from ne obtain x xs where xs: "m_torrents s = x # xs" by (cases "m_torrents s") auto
  with None show ?thesis
    by (simp add: save_slot_def under_cursor_def phase_def incr_it_def emit_def request_save_def
        slot_calls_def it_at_def begin_it_drop [of 0 xs, simplified])
next
  case (Some h)
  with ok have "h \<in> set (m_torrents s)" by (simp add: cursor_ok_def)
  from succ_it_index [OF this] Some show ?thesis
    by (simp add: save_slot_def under_cursor_def phase_def incr_it_def emit_def request_save_def
        slot_calls_def)
qed

lemma save_slot_ok:
  assumes ne: "m_torrents s \<noteq> []" and ok: "cursor_ok s"
  shows "\<exists>s'. save_slot e s = Inr s' \<and> m_torrents s' = m_torrents s \<and> cursor_ok s'
           \<and> m_interval s' = m_interval s
           \<and> calls s' = calls s @ slot_calls e (under_cursor s)"
  by (simp add: save_slot_eq [OF ne ok] cursor_ok_def it_at_def)

lemma save_loop_ok:
  "m_torrents s \<noteq> [] \<Longrightarrow> cursor_ok s \<Longrightarrow>
   \<exists>s' new. save_loop e k s = Inr s' \<and> m_torrents s' = m_torrents s \<and> cursor_ok s'
      \<and> m_interval s' = m_interval s
      \<and> calls s' = calls s @ new \<and> length (slots new) = k"
proof (induction k arbitrary: s)
  case 0
  then show ?case by simp
next
  case (Suc k)
  from save_slot_ok [OF Suc.prems, of e] obtain s1 where
    a: "save_slot e s = Inr s1" and t: "m_torrents s1 = m_torrents s" and c: "cursor_ok s1"
    and i: "m_interval s1 = m_interval s"
    and l: "calls s1 = calls s @ slot_calls e (under_cursor s)" by blast
  from Suc.prems t have ne: "m_torrents s1 \<noteq> []" by simp
  from Suc.IH [OF ne c] obtain s' new where
    b: "save_loop e k s1 = Inr s'" and t': "m_torrents s' = m_torrents s1" and c': "cursor_ok s'"
    and i': "m_interval s' = m_interval s1"
    and l': "calls s' = calls s1 @ new" and n: "length (slots new) = k" by blast
  have "calls s' = calls s @ (slot_calls e (under_cursor s) @ new)"
    by (simp add: l l')
  moreover have "length (slots (slot_calls e (under_cursor s) @ new)) = Suc k"
    by (simp add: n)
  ultimately show ?case using a b t t' c' i i' by (simp del: slots_append)
qed

text \<open>
  C4. An iteration of the throttled pass, in a state where the set is not empty and the
  cursor is the end or a node of the set (as it is in every state the object reaches),
  serves the entity \<open>under_cursor s\<close>: the one at the cursor, the first of the set when
  the cursor is at the end. It asks the entity whether it needs saving, issues a save
  request and increments the counter exactly when the answer is yes, and in either case
  sets \<^verbatim>\<open>m_last_save\<close> to the clock and moves the cursor to the position after that
  entity. The remaining iterations go on from the state so obtained.
\<close>

theorem slot_effect:
  assumes ne: "m_torrents s \<noteq> []" and ok: "cursor_ok s"
  shows "\<exists>s1. save_slot e s = Inr s1 \<and> save_loop e (Suc k) s = save_loop e k s1 \<and>
           under_cursor s = (case m_cursor s of None \<Rightarrow> hd (m_torrents s) | Some h \<Rightarrow> h) \<and>
           m_torrents s1 = m_torrents s \<and>
           calls s1 = calls s @ NeedSaveResumeData (under_cursor s) #
              (if need_save e (under_cursor s) then [SaveResumeData (under_cursor s)] else []) \<and>
           m_num_in_flight s1 = m_num_in_flight s + (if need_save e (under_cursor s) then 1 else 0) \<and>
           m_last_save s1 = now e \<and>
           m_cursor s1 = it_at (m_torrents s) (Suc (index_of (m_torrents s) (under_cursor s)))"
  by (simp add: save_slot_eq [OF ne ok] slot_calls_def under_cursor_def phase_def)

text \<open>
  The scenario of ten entities and an interval of 300 seconds, ticked after 30 seconds:
  one slot, and the cursor moves from the first entity to the second whether or not the
  first needed saving.
\<close>

theorem slot_effect_witness:
  "m_torrents ten \<noteq> [] \<and> cursor_ok ten \<and>
   (\<exists>s1. save_slot (quiet 30) ten = Inr s1 \<and> throttle (quiet 30) ten = Inr s1 \<and>
      calls s1 = [NeedSaveResumeData 1] \<and> m_num_in_flight s1 = 0 \<and>
      m_last_save s1 = 30 \<and> m_cursor s1 = Some 2) \<and>
   (\<exists>s1. save_slot (dirty 30) ten = Inr s1 \<and> throttle (dirty 30) ten = Inr s1 \<and>
      calls s1 = [NeedSaveResumeData 1, SaveResumeData 1] \<and> m_num_in_flight s1 = 1 \<and>
      m_last_save s1 = 30 \<and> m_cursor s1 = Some 2)"
proof -
  have ne: "m_torrents ten \<noteq> []" by (simp add: ten_def)
  have ok: "cursor_ok ten" by (simp add: ten_def cursor_ok_def)
  have u: "under_cursor ten = 1" by (simp add: ten_def under_cursor_def)
  have i: "it_at (m_torrents ten) (Suc (index_of (m_torrents ten) 1)) = Some 2"
    by (simp add: ten_def it_at_def)
  have c: "calls ten = []" "m_num_in_flight ten = 0" by (simp_all add: ten_def)
  have tq: "throttle (quiet 30) ten = save_loop (quiet 30) (Suc 0) ten"
    by (simp add: throttle_def num_to_save_def int_ok_def cdiv_def quiet_def ten_def)
  have td: "throttle (dirty 30) ten = save_loop (dirty 30) (Suc 0) ten"
    by (simp add: throttle_def num_to_save_def int_ok_def cdiv_def dirty_def ten_def)
  from slot_effect [OF ne ok, of "quiet 30" 0] u i c tq
  have q: "\<exists>s1. save_slot (quiet 30) ten = Inr s1 \<and> throttle (quiet 30) ten = Inr s1 \<and>
      calls s1 = [NeedSaveResumeData 1] \<and> m_num_in_flight s1 = 0 \<and>
      m_last_save s1 = 30 \<and> m_cursor s1 = Some 2"
    by (auto simp: quiet_def)
  from slot_effect [OF ne ok, of "dirty 30" 0] u i c td
  have d: "\<exists>s1. save_slot (dirty 30) ten = Inr s1 \<and> throttle (dirty 30) ten = Inr s1 \<and>
      calls s1 = [NeedSaveResumeData 1, SaveResumeData 1] \<and> m_num_in_flight s1 = 1 \<and>
      m_last_save s1 = 30 \<and> m_cursor s1 = Some 2"
    by (auto simp: dirty_def)
  from ne ok q d show ?thesis by blast
qed

subsection \<open>The number of slots of a tick\<close>







subsection \<open>save\_all\<close>

lemma save_all_from_eq:
  "save_all_from e hs s =
     s\<lparr>m_num_in_flight := m_num_in_flight s + int (length (filter (need_save e) hs)),
       calls := calls s @ concat (map (slot_calls e) hs)\<rparr>"
  by (induction hs arbitrary: s) (simp_all add: emit_def request_save_def slot_calls_def)

lemma requests_concat_slot_calls:
  "requests (concat (map (slot_calls e) hs)) = filter (need_save e) hs"
  by (induction hs) (simp_all add: requests_slot_calls)

text \<open>
  C10. \<^verbatim>\<open>save_all\<close> issues its save requests for exactly the entities of the set that
  report that they need saving, one request each in iteration order, adds their number
  to the counter, and leaves the set, the cursor and \<^verbatim>\<open>m_last_save\<close> as they were.
\<close>

theorem save_all_effect:
  "\<exists>new. calls (save_all e s) = calls s @ new \<and>
      requests new = filter (need_save e) (m_torrents s) \<and>
      m_num_in_flight (save_all e s)
        = m_num_in_flight s + int (length (filter (need_save e) (m_torrents s))) \<and>
      m_torrents (save_all e s) = m_torrents s \<and>
      m_cursor (save_all e s) = m_cursor s \<and>
      m_last_save (save_all e s) = m_last_save s"
  by (simp add: save_all_def save_all_from_eq requests_concat_slot_calls)

theorem save_all_effect_witness:
  "\<exists>new. calls (save_all \<lparr>now = 5, need_save = (\<lambda>h. h = 2), arrange = (\<lambda>xs. xs)\<rparr> three) = calls three @ new \<and>
      requests new = [2] \<and>
      m_num_in_flight (save_all \<lparr>now = 5, need_save = (\<lambda>h. h = 2), arrange = (\<lambda>xs. xs)\<rparr> three) = 1 \<and>
      m_torrents (save_all \<lparr>now = 5, need_save = (\<lambda>h. h = 2), arrange = (\<lambda>xs. xs)\<rparr> three) = [1, 2, 3] \<and>
      m_cursor (save_all \<lparr>now = 5, need_save = (\<lambda>h. h = 2), arrange = (\<lambda>xs. xs)\<rparr> three) = Some 2 \<and>
      m_last_save (save_all \<lparr>now = 5, need_save = (\<lambda>h. h = 2), arrange = (\<lambda>xs. xs)\<rparr> three) = 0"
  using save_all_effect [of "\<lparr>now = 5, need_save = (\<lambda>h. h = 2), arrange = (\<lambda>xs. xs)\<rparr>" three]
  by (simp add: three_def)

subsection \<open>Metadata received\<close>

text \<open>
  C6. On a metadata-received alert the handler first issues one save request for the
  alert's torrent and increments the counter by one, whatever the cursor, the clock and
  \<^verbatim>\<open>m_last_save\<close> are; the throttled pass then runs from that state, so the request is
  the first call of the handler.
\<close>

theorem metadata_received_saves:
  "dispatch lib e (MetadataReceived h) s =
     Inr (s\<lparr>calls := calls s @ [SaveResumeData h], m_num_in_flight := m_num_in_flight s + 1\<rparr>) \<and>
   handle_alert lib e (MetadataReceived h) s =
     throttle e (s\<lparr>calls := calls s @ [SaveResumeData h],
                   m_num_in_flight := m_num_in_flight s + 1\<rparr>) \<and>
   (\<forall>s'. handle_alert lib e (MetadataReceived h) s = Inr s' \<longrightarrow>
      (\<exists>rest. calls s' = calls s @ SaveResumeData h # rest))"
proof -
  let ?s1 = "s\<lparr>calls := calls s @ [SaveResumeData h], m_num_in_flight := m_num_in_flight s + 1\<rparr>"
  have d: "dispatch lib e (MetadataReceived h) s = Inr ?s1"
    by (simp add: request_save_def emit_def)
  then have h: "handle_alert lib e (MetadataReceived h) s = throttle e ?s1"
    by (simp add: handle_alert_def)
  have "\<exists>rest. calls s' = calls s @ SaveResumeData h # rest"
    if "handle_alert lib e (MetadataReceived h) s = Inr s'" for s'
  proof -
    from that h have "throttle e ?s1 = Inr s'" by simp
    from throttle_calls [OF this] show ?thesis by auto
  qed
  with d h show ?thesis by blast
qed

theorem metadata_received_saves_witness:
  "\<exists>s'. handle_alert posix_lib (quiet 30) (MetadataReceived 7) ten = Inr s' \<and>
        (\<exists>rest. calls s' = calls ten @ SaveResumeData 7 # rest)"
proof -
  have "handle_alert posix_lib (quiet 30) (MetadataReceived 7) ten =
    Inr (ten\<lparr>m_cursor := Some 2, m_last_save := 30, m_num_in_flight := 1,
             calls := [SaveResumeData 7, NeedSaveResumeData 1]\<rparr>)"
    by (simp add: model_defs demo_defs ten_def)
  with metadata_received_saves [of posix_lib "quiet 30" 7 ten] show ?thesis by blast
qed

subsection \<open>Removal\<close>

lemma on_removed_untracked:
  assumes "h \<notin> set (m_torrents s)"
  shows "on_removed lib h ih s = Inl (if m_cursor s = None then IncrementEnd else EraseEnd)"
  using assms
  by (simp add: on_removed_def find_it_def incr_it_def erase_it_def emit_def)

lemma on_removed_eq:
  assumes mem: "h \<in> set (m_torrents s)"
  shows "on_removed lib h ih s =
     Inr (s\<lparr>m_torrents := remove1 h (m_torrents s),
           m_cursor := (if m_cursor s = Some h
                        then (case it_at (m_torrents s) (Suc (index_of (m_torrents s) h)) of
                                None \<Rightarrow> begin_it (remove1 h (m_torrents s))
                              | Some x \<Rightarrow> Some x)
                        else m_cursor s),
           calls := calls s @ [RemoveFile (resume_file lib (m_resume_dir s) ih)]\<rparr>)"
  using mem succ_it_index [OF mem]
  by (auto simp: on_removed_def find_it_def incr_it_def erase_it_def emit_def
      split: option.splits)

text \<open>Where the cursor is after the removal branch, for a tracked entity.\<close>

lemma on_removed_cursor:
  assumes dist: "distinct (m_torrents s)" and mem: "h \<in> set (m_torrents s)"
    and ok: "cursor_ok s" and r: "on_removed lib h ih s = Inr s'"
  shows "m_torrents s' = remove1 h (m_torrents s) \<and> cursor_ok s' \<and>
         (m_cursor s \<noteq> None \<and> m_torrents s' \<noteq> [] \<longrightarrow> m_cursor s' \<in> Some ` set (m_torrents s'))"
proof -
  let ?xs = "m_torrents s"
  let ?c = "if m_cursor s = Some h
            then (case it_at ?xs (Suc (index_of ?xs h)) of
                    None \<Rightarrow> begin_it (remove1 h ?xs) | Some x \<Rightarrow> Some x)
            else m_cursor s"
  from r on_removed_eq [OF mem, of lib ih]
  have t: "m_torrents s' = remove1 h ?xs" and c: "m_cursor s' = ?c" by auto
  have mem': "x \<in> set (remove1 h ?xs)" if "?c = Some x" for x
  proof (cases "m_cursor s = Some h")
    case True
    show ?thesis
    proof (cases "it_at ?xs (Suc (index_of ?xs h))")
      case None
      with True that show ?thesis by (simp add: begin_it_mem)
    next
      case (Some y)
      with True that have "y = x" by simp
      with it_at_Suc_ne [OF dist mem Some] dist show ?thesis by simp
    qed
  next
    case False
    with that ok have "x \<in> set ?xs" "x \<noteq> h" by (auto simp: cursor_ok_def)
    with dist show ?thesis by simp
  qed
  then have ok': "cursor_ok s'"
    using t c by (auto simp: cursor_ok_def split: option.splits)
  have live: "m_cursor s' \<in> Some ` set (m_torrents s')"
    if a: "m_cursor s \<noteq> None" and b: "m_torrents s' \<noteq> []"
  proof -
    have "?c \<noteq> None"
    proof (cases "m_cursor s = Some h")
      case True
      from b t obtain y ys where "remove1 h ?xs = y # ys" by (cases "remove1 h ?xs") auto
      with True show ?thesis by (auto split: option.splits)
    next
      case False
      with a show ?thesis by simp
    qed
    then obtain x where x: "?c = Some x" by blast
    from mem' [OF x] x t c show ?thesis by simp
  qed
  from t ok' live show ?thesis by blast
qed

text \<open>
  C5, as the code has it. When a tracked entity is removed and the cursor is on it, the
  cursor moves to the next entity of the iteration order, or to the start of what is
  left when the removed entity was the last; otherwise the cursor is not moved. After
  the removal the cursor is the end or a node of the set, and it is a node of the set
  whenever it was not at the end before the removal and the set is still non-empty.
  (A cursor left at the end by the throttled pass stays at the end.)
\<close>

theorem removal_cursor:
  assumes dist: "distinct (m_torrents s)" and mem: "h \<in> set (m_torrents s)"
    and ok: "cursor_ok s"
  shows "\<exists>s'. dispatch lib e (TorrentRemoved h ih) s = Inr s' \<and>
           m_torrents s' = remove1 h (m_torrents s) \<and>
           (m_cursor s = Some h \<longrightarrow>
              m_cursor s' =
                (if Suc (index_of (m_torrents s) h) < length (m_torrents s)
                 then Some (m_torrents s ! Suc (index_of (m_torrents s) h))
                 else begin_it (m_torrents s'))) \<and>
           (m_cursor s \<noteq> Some h \<longrightarrow> m_cursor s' = m_cursor s) \<and>
           cursor_ok s' \<and>
           (m_cursor s \<noteq> None \<and> m_torrents s' \<noteq> [] \<longrightarrow> m_cursor s' \<in> Some ` set (m_torrents s'))"
proof -
  from on_removed_eq [OF mem, of lib ih] obtain s' where
    d: "on_removed lib h ih s = Inr s'"
    and c1: "m_cursor s = Some h \<longrightarrow>
              m_cursor s' =
                (if Suc (index_of (m_torrents s) h) < length (m_torrents s)
                 then Some (m_torrents s ! Suc (index_of (m_torrents s) h))
                 else begin_it (remove1 h (m_torrents s)))"
    and c2: "m_cursor s \<noteq> Some h \<longrightarrow> m_cursor s' = m_cursor s"
    by (simp add: it_at_def)
  from on_removed_cursor [OF dist mem ok d] c1 c2 d show ?thesis by auto
qed

theorem removal_cursor_witness:
  "distinct (m_torrents three) \<and> 2 \<in> set (m_torrents three) \<and> cursor_ok three \<and>
   m_cursor three = Some 2 \<and>
   (\<exists>s'. dispatch posix_lib (quiet 0) (TorrentRemoved 2 ''ab'') three = Inr s' \<and>
      m_torrents s' = [1, 3] \<and> m_cursor s' = Some 3 \<and> cursor_ok s')"
proof -
  have d: "distinct (m_torrents three)" and m: "2 \<in> set (m_torrents three)"
    and ok: "cursor_ok three" and c: "m_cursor three = Some 2"
    by (simp_all add: three_def cursor_ok_def)
  have i: "Suc (index_of (m_torrents three) 2) < length (m_torrents three)"
    "m_torrents three ! Suc (index_of (m_torrents three) 2) = 3"
    "remove1 2 (m_torrents three) = [1, 3]"
    by (simp_all add: three_def)
  from removal_cursor [OF d m ok, of posix_lib "quiet 0" "''ab''"] c i
  have "\<exists>s'. dispatch posix_lib (quiet 0) (TorrentRemoved 2 ''ab'') three = Inr s' \<and>
      m_torrents s' = [1, 3] \<and> m_cursor s' = Some 3 \<and> cursor_ok s'"
    by auto
  with d m ok c show ?thesis by blast
qed

text \<open>
  The claim C5 as worded fails: after the throttled pass has left the cursor at the end,
  removing another entity leaves a non-empty set with the cursor still at the end.
\<close>

theorem removal_cursor_counterexample:
  "run_alerts posix_lib
     [(quiet 0, AddTorrent 1 False), (quiet 0, AddTorrent 2 False),
      (quiet 150, OtherAlert), (quiet 150, TorrentRemoved 2 ''ab'')]
     (init ''resume'' 0)
   = Inr \<lparr>m_torrents = [1], m_cursor = None, m_last_save = 150, m_interval = 300,
          m_num_in_flight = 0, m_resume_dir = ''resume'',
          calls = [NeedSaveResumeData 1, RemoveFile ''resume/6162.resume'']\<rparr>"
  by (simp add: model_defs demo_defs)

text \<open>
  C7, as the code has it. A removal alert for an entity that is not in the set is not
  ignored: with the assertion compiled out the handler erases at \<^verbatim>\<open>end()\<close>, after
  incrementing \<^verbatim>\<open>end()\<close> when the cursor is at the end as well. Both are undefined.
\<close>

theorem untracked_removal_faults:
  assumes "h \<notin> set (m_torrents s)"
  shows "dispatch lib e (TorrentRemoved h ih) s =
           Inl (if m_cursor s = None then IncrementEnd else EraseEnd) \<and>
         handle_alert lib e (TorrentRemoved h ih) s =
           Inl (if m_cursor s = None then IncrementEnd else EraseEnd)"
  by (simp add: handle_alert_def on_removed_untracked [OF assms])

theorem untracked_removal_faults_witness:
  "4 \<notin> set (m_torrents three) \<and>
   handle_alert posix_lib (quiet 0) (TorrentRemoved 4 ''ab'') three = Inl EraseEnd \<and>
   7 \<notin> set (m_torrents (init ''resume'' 0)) \<and>
   handle_alert posix_lib (quiet 0) (TorrentRemoved 7 ''ab'') (init ''resume'' 0) = Inl IncrementEnd"
proof -
  have a: "4 \<notin> set (m_torrents three)" by (simp add: three_def)
  have b: "7 \<notin> set (m_torrents (init ''resume'' 0))" by (simp add: init_def)
  from untracked_removal_faults [OF a, of posix_lib "quiet 0" "''ab''"]
    untracked_removal_faults [OF b, of posix_lib "quiet 0" "''ab''"] a b
  show ?thesis by (simp add: three_def init_def)
qed

text \<open>
  The claim C7 as worded fails: the alert is not ignored, the handler does not return the
  state it was given.
\<close>

theorem untracked_removal_counterexample:
  "run_alerts posix_lib
     [(quiet 0, AddTorrent 1 False), (quiet 0, TorrentRemoved 2 ''ab'')] (init ''resume'' 0)
   = Inl EraseEnd"
  by (simp add: model_defs demo_defs)

subsection \<open>load\<close>

text \<open>
  C8. \<^verbatim>\<open>load\<close> submits one \<^verbatim>\<open>async_add_torrent\<close> for every file the directory scan yields
  whose extension is \<^verbatim>\<open>.resume\<close> and whose read succeeds, in the order of the scan; each
  request is the model parameters with the bytes read attached as resume data. Files
  with another extension and files whose read fails are passed over and the scan goes
  on. The error returned is that of the directory scan.
\<close>

theorem load_submits:
  "load lib rd d model s =
     (final_ec d,
      map (\<lambda>bytes. model\<lparr>resume_data := Some bytes\<rparr>)
        (List.map_filter (\<lambda>f. rd (combine_path lib (m_resume_dir s) f))
           (filter (\<lambda>f. extension lib f = ''.resume'') (listed d))))"
  unfolding load_def
  by (induction d) (auto simp: List.map_filter_simps split: option.splits prod.splits)

text \<open>Three readable resume files and an unreadable one: three requests.\<close>

theorem load_submits_witness:
  "load posix_lib demo_read demo_dir \<lparr>resume_data = None\<rparr> (init ''resume'' 0) =
     (None, [\<lparr>resume_data = Some ''A''\<rparr>, \<lparr>resume_data = Some ''C''\<rparr>,
             \<lparr>resume_data = Some ''D''\<rparr>])"
  using load_submits [of posix_lib demo_read demo_dir "\<lparr>resume_data = None\<rparr>" "init ''resume'' 0"]
  by (simp add: demo_dir_def demo_read_def demo_defs init_def List.map_filter_simps)

subsection \<open>What the throttled pass leaves alone\<close>

lemma save_slot_frame:
  "save_slot e s = Inr s' \<Longrightarrow>
   m_torrents s' = m_torrents s \<and> m_resume_dir s' = m_resume_dir s \<and> m_interval s' = m_interval s"
  by (auto simp: save_slot_def Let_def emit_def request_save_def bind_fault_Inr_iff
      split: option.splits if_splits)

lemma save_loop_frame:
  "save_loop e k s = Inr s' \<Longrightarrow>
   m_torrents s' = m_torrents s \<and> m_resume_dir s' = m_resume_dir s \<and> m_interval s' = m_interval s"
proof (induction k arbitrary: s)
  case 0
  then show ?case by simp
next
  case (Suc k)
  then obtain s1 where a: "save_slot e s = Inr s1" and b: "save_loop e k s1 = Inr s'"
    by (auto simp: bind_fault_Inr_iff)
  from save_slot_frame [OF a] Suc.IH [OF b] show ?case by simp
qed

lemma throttle_frame:
  "throttle e s = Inr s' \<Longrightarrow>
   m_torrents s' = m_torrents s \<and> m_resume_dir s' = m_resume_dir s \<and> m_interval s' = m_interval s"
  by (auto simp: throttle_def bind_fault_Inr_iff dest: save_loop_frame split: if_splits)

subsection \<open>The states the object reaches\<close>

lemma insert_handle_distinct: "distinct xs \<Longrightarrow> distinct (insert_handle ord h xs)"
  by (simp add: insert_handle_def Let_def)

lemma insert_handle_set: "set (insert_handle ord h xs) = insert h (set xs)"
  by (auto simp: insert_handle_def Let_def)

lemma on_add_ok: "members_ok s \<Longrightarrow> members_ok (on_add e h md s)"
  by (auto simp: members_ok_def on_add_def Let_def request_save_def emit_def cursor_ok_def
      insert_handle_distinct insert_handle_set split: option.splits dest: begin_it_mem)

lemma dispatch_ok:
  assumes "members_ok s" and "dispatch lib e a s = Inr s'"
  shows "members_ok s'"
proof (cases a)
  case (AddTorrent h md)
  with assms on_add_ok [of s e h md] show ?thesis by simp
next
  case (MetadataReceived h)
  with assms show ?thesis
    by (auto simp: members_ok_def request_save_def emit_def cursor_ok_def split: option.splits)
next
  case (TorrentRemoved h ih)
  show ?thesis
  proof (cases "h \<in> set (m_torrents s)")
    case True
    from assms TorrentRemoved have r: "on_removed lib h ih s = Inr s'" by simp
    from assms(1) have d: "distinct (m_torrents s)" and ok: "cursor_ok s"
      by (simp_all add: members_ok_def)
    from on_removed_cursor [OF d True ok r] on_removed_eq [OF True, of lib ih] r d assms(1)
    show ?thesis by (auto simp: members_ok_def)
  next
    case False
    from on_removed_untracked [OF False, of lib ih] assms TorrentRemoved show ?thesis by simp
  qed
next
  case (SaveResumeDataAlert r)
  with assms show ?thesis
    by (auto simp: members_ok_def on_save_resume_data_def Let_def emit_def cursor_ok_def
        split: option.splits)
next
  case SaveResumeDataFailed
  with assms show ?thesis by (auto simp: members_ok_def cursor_ok_def split: option.splits)
next
  case OtherAlert
  with assms show ?thesis by simp
qed

lemma throttle_ok:
  assumes "members_ok s" and "throttle e s = Inr s'"
  shows "members_ok s'"
proof (cases "m_torrents s = []")
  case True
  with assms show ?thesis by (simp add: throttle_def)
next
  case False
  with assms(2) obtain n where l: "save_loop e (nat n) s = Inr s'"
    by (auto simp: throttle_def bind_fault_Inr_iff)
  from assms(1) have ok: "cursor_ok s" by (simp add: members_ok_def)
  from save_loop_ok [OF False ok, of e "nat n"] l assms(1) show ?thesis
    by (auto simp: members_ok_def)
qed

lemma handle_alert_ok:
  "members_ok s \<Longrightarrow> handle_alert lib e a s = Inr s' \<Longrightarrow> members_ok s'"
  by (auto simp: handle_alert_def bind_fault_Inr_iff dest: dispatch_ok throttle_ok)

lemma run_alerts_ok:
  "members_ok s \<Longrightarrow> run_alerts lib es s = Inr s' \<Longrightarrow> members_ok s'"
proof (induction es arbitrary: s)
  case Nil
  then show ?case by simp
next
  case (Cons x es)
  obtain e a where x: "x = (e, a)" by (cases x)
  with Cons.prems obtain s1 where
    h: "handle_alert lib e a s = Inr s1" and r: "run_alerts lib es s1 = Inr s'"
    by (auto simp: bind_fault_Inr_iff)
  from Cons.IH [OF handle_alert_ok [OF Cons.prems(1) h] r] show ?case .
qed

text \<open>
  In every state reached from the constructed object the set has no duplicates, the
  cursor is the end or a node of the set, and the interval is five minutes.
\<close>

lemma reachable_ok: "run_alerts lib es (init dir t0) = Inr s \<Longrightarrow> members_ok s"
  by (rule run_alerts_ok) (simp_all add: members_ok_def init_def cursor_ok_def)

subsection \<open>Save completed\<close>

lemma removed_then:
  assumes dist: "distinct (m_torrents s0)"
    and r: "handle_alert lib e0 (TorrentRemoved h ih) s0 = Inr s"
  shows "h \<notin> set (m_torrents s) \<and> m_resume_dir s = m_resume_dir s0 \<and>
         (\<exists>mid. calls s = calls s0 @ RemoveFile (resume_file lib (m_resume_dir s0) ih) # mid)"
proof (cases "h \<in> set (m_torrents s0)")
  case False
  from on_removed_untracked [OF False, of lib ih] r show ?thesis
    by (simp add: handle_alert_def)
next
  case True
  from r obtain s1 where d: "on_removed lib h ih s0 = Inr s1" and t: "throttle e0 s1 = Inr s"
    by (auto simp: handle_alert_def bind_fault_Inr_iff)
  from d on_removed_eq [OF True, of lib ih]
  have t1: "m_torrents s1 = remove1 h (m_torrents s0)"
    and r1: "m_resume_dir s1 = m_resume_dir s0"
    and c1: "calls s1 = calls s0 @ [RemoveFile (resume_file lib (m_resume_dir s0) ih)]"
    by auto
  from throttle_frame [OF t] t1 r1 dist have a: "h \<notin> set (m_torrents s)"
    and b: "m_resume_dir s = m_resume_dir s0" by simp_all
  from throttle_calls [OF t] c1
  have "\<exists>mid. calls s = calls s0 @ RemoveFile (resume_file lib (m_resume_dir s0) ih) # mid"
    by auto
  with a b show ?thesis by blast
qed

text \<open>
  C9. On a save-completed alert the handler, in any state, decrements the counter, has
  the payload encoded, asks for the resume directory to be created and writes the
  encoding to the file named after the info-hash found in the payload; the set is not
  consulted. So when the alert arrives after the removal of the entity with that
  info-hash, the entity is no longer in the set, the removal has deleted the file, and the
  handler writes that same file again.
\<close>

theorem save_completed_writes:
  "dispatch lib e (SaveResumeDataAlert r) s =
     Inr (s\<lparr>m_num_in_flight := m_num_in_flight s - 1,
           calls := calls s @
             [CreateDirectory (m_resume_dir s),
              SaveFile (combine_path lib (m_resume_dir s)
                          (to_hex lib (info_hash_string lib r) @ ''.resume''))
                       (bencode lib r)]\<rparr>) \<and>
   (\<forall>s0 e0 h. distinct (m_torrents s0) \<and>
       handle_alert lib e0 (TorrentRemoved h (info_hash_string lib r)) s0 = Inr s \<longrightarrow>
       h \<notin> set (m_torrents s) \<and>
       (\<exists>mid. calls s @
                [CreateDirectory (m_resume_dir s),
                 SaveFile (combine_path lib (m_resume_dir s)
                             (to_hex lib (info_hash_string lib r) @ ''.resume''))
                          (bencode lib r)]
             = calls s0 @
                RemoveFile (combine_path lib (m_resume_dir s)
                             (to_hex lib (info_hash_string lib r) @ ''.resume'')) # mid @
                [CreateDirectory (m_resume_dir s),
                 SaveFile (combine_path lib (m_resume_dir s)
                             (to_hex lib (info_hash_string lib r) @ ''.resume''))
                          (bencode lib r)]))"
proof -
  have a: "dispatch lib e (SaveResumeDataAlert r) s =
     Inr (s\<lparr>m_num_in_flight := m_num_in_flight s - 1,
           calls := calls s @
             [CreateDirectory (m_resume_dir s),
              SaveFile (combine_path lib (m_resume_dir s)
                          (to_hex lib (info_hash_string lib r) @ ''.resume''))
                       (bencode lib r)]\<rparr>)"
    by (simp add: on_save_resume_data_def emit_def resume_file_def)
  have b: "h \<notin> set (m_torrents s) \<and>
       (\<exists>mid. calls s @ tl
             = calls s0 @
                RemoveFile (combine_path lib (m_resume_dir s)
                             (to_hex lib (info_hash_string lib r) @ ''.resume'')) # mid @ tl)"
    if "distinct (m_torrents s0)"
      and "handle_alert lib e0 (TorrentRemoved h (info_hash_string lib r)) s0 = Inr s"
    for s0 e0 h tl
    using removed_then [OF that] by (auto simp: resume_file_def)
  from a b show ?thesis by blast
qed

theorem save_completed_writes_witness:
  "distinct (m_torrents three) \<and>
   handle_alert posix_lib (quiet 0) (TorrentRemoved 2 ''ab'') three
     = Inr (three\<lparr>m_torrents := [1, 3], m_cursor := Some 3,
                  calls := [RemoveFile ''resume/6162.resume'']\<rparr>) \<and>
   2 \<notin> set (m_torrents (three\<lparr>m_torrents := [1, 3], m_cursor := Some 3,
                  calls := [RemoveFile ''resume/6162.resume'']\<rparr>)) \<and>
   dispatch posix_lib (quiet 1) (SaveResumeDataAlert (''ab'', ''d4:spam4:eggse''))
       (three\<lparr>m_torrents := [1, 3], m_cursor := Some 3,
               calls := [RemoveFile ''resume/6162.resume'']\<rparr>)
     = Inr (three\<lparr>m_torrents := [1, 3], m_cursor := Some 3, m_num_in_flight := - 1,
                  calls := [RemoveFile ''resume/6162.resume'', CreateDirectory ''resume'',
                            SaveFile ''resume/6162.resume'' ''d4:spam4:eggse'']\<rparr>)"
proof -
  let ?s = "three\<lparr>m_torrents := [1, 3], m_cursor := Some 3,
                  calls := [RemoveFile ''resume/6162.resume'']\<rparr>"
  let ?r = "(''ab'', ''d4:spam4:eggse'')"
  have d: "distinct (m_torrents three)" by (simp add: three_def)
  have ih: "info_hash_string posix_lib ?r = ''ab''" by (simp add: posix_lib_def)
  have h: "handle_alert posix_lib (quiet 0) (TorrentRemoved 2 (info_hash_string posix_lib ?r)) three
             = Inr ?s"
    by (simp add: model_defs demo_defs three_def)
  note inst = save_completed_writes [of posix_lib "quiet 1" ?r ?s]
  from inst have w: "dispatch posix_lib (quiet 1) (SaveResumeDataAlert ?r) ?s
     = Inr (three\<lparr>m_torrents := [1, 3], m_cursor := Some 3, m_num_in_flight := - 1,
                  calls := [RemoveFile ''resume/6162.resume'', CreateDirectory ''resume'',
                            SaveFile ''resume/6162.resume'' ''d4:spam4:eggse'']\<rparr>)"
    by (simp add: demo_defs three_def)
  from inst d h have g: "2 \<notin> set (m_torrents ?s)" by blast
  from d h ih w g show ?thesis by simp
qed

subsection \<open>Round robin\<close>

lemma cyclic_0 [simp]: "cyclic xs q 0 = []"
  by (simp add: cyclic_def)

lemma length_cyclic [simp]: "length (cyclic xs q k) = k"
  by (simp add: cyclic_def)









lemma handle_beat [simp]: "handle_alert lib e OtherAlert s = throttle e s"
  by (simp add: handle_alert_def)







end
